theory Spec2Isabelle
  imports Complex_Main
begin

section \<open>Python strings\<close>

text \<open>
  The functions verified here are the Python functions of the OCR/translate bot
  (\<^verbatim>\<open>prepare_arabic_for_pdf\<close>, \<^verbatim>\<open>translate_chunked\<close>, \<^verbatim>\<open>split_for_pdf\<close>,
  \<^verbatim>\<open>build_translated_pdf\<close> and the three handlers). A Python \<^verbatim>\<open>str\<close> is a sequence of
  Unicode code points and \<^verbatim>\<open>len\<close> counts code points, so a string is a list of
  code points, each a natural number.
\<close>

type_synonym pychar = nat
type_synonym pystr = "nat list"

definition ascii :: "string \<Rightarrow> pystr" where
  "ascii s = map of_char s"

text \<open>\<^verbatim>\<open>str.isspace\<close> on one code point: the white-space table of CPython.\<close>

definition isspace :: "pychar \<Rightarrow> bool" where
  "isspace c \<longleftrightarrow>
     (9 \<le> c \<and> c \<le> 13) \<or> (28 \<le> c \<and> c \<le> 32) \<or> c = 133 \<or> c = 160 \<or> c = 5760 \<or>
     (8192 \<le> c \<and> c \<le> 8202) \<or> c = 8232 \<or> c = 8233 \<or> c = 8239 \<or> c = 8287 \<or> c = 12288"

abbreviation nonspace :: "pychar \<Rightarrow> bool" where
  "nonspace \<equiv> (\<lambda>c. \<not> isspace c)"

text \<open>The line boundaries of \<^verbatim>\<open>str.splitlines\<close>.\<close>

definition is_linebreak :: "pychar \<Rightarrow> bool" where
  "is_linebreak c \<longleftrightarrow>
     (10 \<le> c \<and> c \<le> 13) \<or> (28 \<le> c \<and> c \<le> 30) \<or> c = 133 \<or> c = 8232 \<or> c = 8233"

text \<open>\<^verbatim>\<open>s.strip()\<close>: white space removed at both ends.\<close>

definition strip :: "pystr \<Rightarrow> pystr" where
  "strip s = rev (dropWhile isspace (rev (dropWhile isspace s)))"

text \<open>
  \<^verbatim>\<open>s.splitlines()\<close>: the lines of \<open>s\<close> without their terminators. A carriage return
  followed by a line feed is one terminator; a terminator at the very end opens no
  further line, and the empty string has no line. \<open>cur\<close> is the line read so far.
\<close>

fun splitlines_from :: "pystr \<Rightarrow> pystr \<Rightarrow> pystr list" where
  "splitlines_from cur [] = (if cur = [] then [] else [cur])"
| "splitlines_from cur [c] =
     (if is_linebreak c then [cur] else [cur @ [c]])"
| "splitlines_from cur (c # d # cs) =
     (if c = 13 \<and> d = 10 then cur # splitlines_from [] cs
      else if is_linebreak c then cur # splitlines_from [] (d # cs)
      else splitlines_from (cur @ [c]) (d # cs))"

definition splitlines :: "pystr \<Rightarrow> pystr list" where
  "splitlines s = splitlines_from [] s"

text \<open>\<^verbatim>\<open>s.split("\n")\<close>: the pieces between line feeds; always at least one piece.\<close>

fun split_nl_from :: "pystr \<Rightarrow> pystr \<Rightarrow> pystr list" where
  "split_nl_from cur [] = [cur]"
| "split_nl_from cur (c # cs) =
     (if c = 10 then cur # split_nl_from [] cs else split_nl_from (cur @ [c]) cs)"

definition split_nl :: "pystr \<Rightarrow> pystr list" where
  "split_nl s = split_nl_from [] s"

text \<open>\<^verbatim>\<open>sep.join(xs)\<close>.\<close>

fun join :: "pystr \<Rightarrow> pystr list \<Rightarrow> pystr" where
  "join sep [] = []"
| "join sep [x] = x"
| "join sep (x # y # ys) = x @ sep @ join sep (y # ys)"

text \<open>A string read without its line separators.\<close>

definition without_breaks :: "pystr \<Rightarrow> pystr" where
  "without_breaks s = filter (\<lambda>c. \<not> is_linebreak c) s"

section \<open>The Page Paginator\<close>

text \<open>
  \<^verbatim>\<open>
  def split_for_pdf(text: str, max_chars: int = 2600) -> List[str]:
      text = (text or "").strip()
      if len(text) <= max_chars:
          return [text] if text else [""]
      lines = text.splitlines()
      pages = []
      buf = ""
      for line in lines:
          if len(buf) + len(line) + 1 <= max_chars:
              buf += line + "\n"
          else:
              pages.append(buf.strip())
              buf = line + "\n"
      if buf.strip():
          pages.append(buf.strip())
      return pages
  \<close>
  The loop carries \<open>pages\<close> and \<open>buf\<close>. \<^verbatim>\<open>text or ""\<close> is \<open>text\<close> for every string.
  The capacity is a Python integer and may be zero or negative.
\<close>

fun split_for_pdf_loop :: "int \<Rightarrow> pystr list \<Rightarrow> pystr list \<Rightarrow> pystr \<Rightarrow> pystr list \<times> pystr" where
  "split_for_pdf_loop max_chars [] pages buf = (pages, buf)"
| "split_for_pdf_loop max_chars (line # lines) pages buf =
     (if int (length buf) + int (length line) + 1 \<le> max_chars
      then split_for_pdf_loop max_chars lines pages (buf @ line @ [10])
      else split_for_pdf_loop max_chars lines (pages @ [strip buf]) (line @ [10]))"

definition split_for_pdf :: "pystr \<Rightarrow> int \<Rightarrow> pystr list" where
  "split_for_pdf text0 max_chars =
     (let text = strip text0 in
      if int (length text) \<le> max_chars then (if text \<noteq> [] then [text] else [[]])
      else
        (case split_for_pdf_loop max_chars (splitlines text) [] [] of
           (pages, buf) \<Rightarrow> if strip buf \<noteq> [] then pages @ [strip buf] else pages))"

section \<open>Exceptions and collaborators\<close>

text \<open>
  A Python exception is a value; a function that may raise returns \<open>py_exception + 'a\<close>
  with \<open>Inl\<close> for the exception. \<open>CollaboratorError\<close> stands for whatever an external
  component raises (the translation service, the OCR engine, the PDF library, the
  messaging transport); \<open>exc_str\<close> is \<^verbatim>\<open>str(e)\<close>.
\<close>

datatype py_exception = ValueError pystr | CollaboratorError pystr

fun exc_str :: "py_exception \<Rightarrow> pystr" where
  "exc_str (ValueError msg) = msg"
| "exc_str (CollaboratorError msg) = msg"

text \<open>
  The external components are parameters of the model:
  \<^item> \<open>fitz_open\<close>: \<^verbatim>\<open>fitz.open(path)\<close>, the pages of the file or an exception;
  \<^item> \<open>get_text\<close>: \<^verbatim>\<open>page.get_text("text") or ""\<close>;
  \<^item> \<open>ocr_page\<close>: rendering the page at zoom 3 and \<^verbatim>\<open>ocr_pil_image(pil) or ""\<close>;
  \<^item> \<open>page_rect\<close>: width and height of \<^verbatim>\<open>page.rect\<close>;
  \<^item> \<open>ocr_image\<close>: \<^verbatim>\<open>Image.open(img_path)\<close> and \<^verbatim>\<open>ocr_pil_image(img) or ""\<close>;
  \<^item> \<open>translate\<close>: \<^verbatim>\<open>translator.translate(c)\<close>;
  \<^item> \<open>reshape\<close>, \<open>get_display\<close>: \<^verbatim>\<open>reshaper.reshape\<close> and \<^verbatim>\<open>bidi.algorithm.get_display\<close>.
\<close>

record ('file, 'page, 'img) collaborators =
  fitz_open :: "'file \<Rightarrow> py_exception + 'page list"
  get_text :: "'page \<Rightarrow> pystr"
  ocr_page :: "'page \<Rightarrow> py_exception + pystr"
  page_rect :: "'page \<Rightarrow> rat \<times> rat"
  ocr_image :: "'img \<Rightarrow> py_exception + pystr"
  translate :: "pystr \<Rightarrow> py_exception + pystr"
  reshape :: "pystr \<Rightarrow> pystr"
  get_display :: "pystr \<Rightarrow> pystr"

section \<open>The RTL Text Shaper\<close>

text \<open>
  \<^verbatim>\<open>
  def prepare_arabic_for_pdf(text: str) -> str:
      reshaper = arabic_reshaper.ArabicReshaper(configuration={"delete_harakat": False})
      out_lines = []
      for line in text.splitlines():
          if not line.strip():
              out_lines.append("")
              continue
          shaped = reshaper.reshape(line)
          out_lines.append(get_display(shaped))
      return "\n".join(out_lines)
  \<close>
\<close>

fun prepare_arabic_loop ::
  "(pystr \<Rightarrow> pystr) \<Rightarrow> (pystr \<Rightarrow> pystr) \<Rightarrow> pystr list \<Rightarrow> pystr list \<Rightarrow> pystr list" where
  "prepare_arabic_loop rs gd [] out_lines = out_lines"
| "prepare_arabic_loop rs gd (line # lines) out_lines =
     (if strip line = [] then prepare_arabic_loop rs gd lines (out_lines @ [[]])
      else prepare_arabic_loop rs gd lines (out_lines @ [gd (rs line)]))"

definition prepare_arabic_for_pdf :: "(pystr \<Rightarrow> pystr) \<Rightarrow> (pystr \<Rightarrow> pystr) \<Rightarrow> pystr \<Rightarrow> pystr" where
  "prepare_arabic_for_pdf rs gd text = join [10] (prepare_arabic_loop rs gd (splitlines text) [])"

section \<open>The Chunked Translator\<close>

text \<open>
  \<^verbatim>\<open>range(i, n, step)\<close> for a positive step, as the iteration produces it; and the hard
  split of a long paragraph,
  \<^verbatim>\<open>
  for i in range(0, len(p), max_chunk_chars):
      chunks.append(p[i : i + max_chunk_chars])
  \<close>
  which raises \<^verbatim>\<open>ValueError\<close> for a step of zero and does nothing for a negative one.
\<close>

function range_from :: "nat \<Rightarrow> nat \<Rightarrow> nat \<Rightarrow> nat list" where
  "range_from i n step = (if step = 0 \<or> n \<le> i then [] else i # range_from (i + step) n step)"
  by pat_completeness auto
termination
  by (relation "measure (\<lambda>(i, n, step). n - i)") auto

declare range_from.simps [simp del]

definition hard_split :: "pystr \<Rightarrow> int \<Rightarrow> py_exception + pystr list" where
  "hard_split p max_chunk_chars =
     (if max_chunk_chars = 0 then Inl (ValueError (ascii ''range() arg 3 must not be zero''))
      else if max_chunk_chars < 0 then Inr []
      else Inr (map (\<lambda>i. take (nat max_chunk_chars) (drop i p))
                  (range_from 0 (length p) (nat max_chunk_chars))))"

text \<open>
  \<^verbatim>\<open>
  for p in parts:
      if len(buf) + len(p) + 1 <= max_chunk_chars:
          buf = (buf + "\n" + p).strip()
      else:
          if buf:
              chunks.append(buf)
          if len(p) <= max_chunk_chars:
              buf = p
          else:
              for i in range(0, len(p), max_chunk_chars):
                  chunks.append(p[i : i + max_chunk_chars])
              buf = ""
  \<close>
\<close>

fun chunk_loop ::
  "int \<Rightarrow> pystr list \<Rightarrow> pystr list \<Rightarrow> pystr \<Rightarrow> py_exception + (pystr list \<times> pystr)" where
  "chunk_loop max_chunk_chars [] chunks buf = Inr (chunks, buf)"
| "chunk_loop max_chunk_chars (p # parts) chunks buf =
     (if int (length buf) + int (length p) + 1 \<le> max_chunk_chars
      then chunk_loop max_chunk_chars parts chunks (strip (buf @ [10] @ p))
      else
        (let chunks1 = (if buf \<noteq> [] then chunks @ [buf] else chunks) in
         if int (length p) \<le> max_chunk_chars then chunk_loop max_chunk_chars parts chunks1 p
         else
           (case hard_split p max_chunk_chars of
              Inl e \<Rightarrow> Inl e
            | Inr slices \<Rightarrow> chunk_loop max_chunk_chars parts (chunks1 @ slices) [])))"

text \<open>
  The chunking step of \<^verbatim>\<open>translate_chunked\<close>, for a text already trimmed and not empty:
  \<^verbatim>\<open>
  parts = [p.strip() for p in text.split("\n") if p.strip()]
  chunks = []
  buf = ""
  for p in parts: ...
  if buf:
      chunks.append(buf)
  \<close>
\<close>

definition make_chunks :: "pystr \<Rightarrow> int \<Rightarrow> py_exception + pystr list" where
  "make_chunks text max_chunk_chars =
     (let parts = map strip (filter (\<lambda>p. strip p \<noteq> []) (split_nl text)) in
      case chunk_loop max_chunk_chars parts [] [] of
        Inl e \<Rightarrow> Inl e
      | Inr (chunks, buf) \<Rightarrow> Inr (if buf \<noteq> [] then chunks @ [buf] else chunks))"

text \<open>
  \<^verbatim>\<open>
  translated = []
  for c in chunks:
      translated.append(translator.translate(c))
  \<close>
  \<open>calls\<close> records every argument the translation service is called with, in order,
  also the call that raises.
\<close>

fun translate_loop ::
  "(pystr \<Rightarrow> py_exception + pystr) \<Rightarrow> pystr list \<Rightarrow> pystr list \<Rightarrow> pystr list \<Rightarrow>
   pystr list \<times> (py_exception + pystr list)" where
  "translate_loop tr [] calls translated = (calls, Inr translated)"
| "translate_loop tr (c # chunks) calls translated =
     (case tr c of
        Inl e \<Rightarrow> (calls @ [c], Inl e)
      | Inr t \<Rightarrow> translate_loop tr chunks (calls @ [c]) (translated @ [t]))"

text \<open>
  \<^verbatim>\<open>
  def translate_chunked(text: str, max_chunk_chars: int = 3500) -> str:
      text = (text or "").strip()
      if not text:
          return ""
      ...
      return "\n\n".join(translated).strip()
  \<close>
  The result is the list of calls made to the translation service and the value
  returned or the exception raised.
\<close>

definition translate_chunked ::
  "(pystr \<Rightarrow> py_exception + pystr) \<Rightarrow> pystr \<Rightarrow> int \<Rightarrow> pystr list \<times> (py_exception + pystr)" where
  "translate_chunked tr text0 max_chunk_chars =
     (let text = strip text0 in
      if text = [] then ([], Inr [])
      else
        (case make_chunks text max_chunk_chars of
           Inl e \<Rightarrow> ([], Inl e)
         | Inr chunks \<Rightarrow>
             (case translate_loop tr chunks [] [] of
                (calls, Inl e) \<Rightarrow> (calls, Inl e)
              | (calls, Inr translated) \<Rightarrow> (calls, Inr (strip (join [10, 10] translated))))))"

section \<open>The Text Extractor\<close>

text \<open>
  \<^verbatim>\<open>
  def extract_text_from_pdf_page(page: fitz.Page) -> str:
      extracted = (page.get_text("text") or "").strip()
      ...
      ocr = (ocr_pil_image(pil) or "").strip()
      full = "\n".join([t for t in [extracted, ocr] if t]).strip()
      return full
  \<close>
\<close>

definition extract_text_from_pdf_page ::
  "('file, 'page, 'img) collaborators \<Rightarrow> 'page \<Rightarrow> py_exception + pystr" where
  "extract_text_from_pdf_page env page =
     (let extracted = strip (get_text env page) in
      case ocr_page env page of
        Inl e \<Rightarrow> Inl e
      | Inr ocr_out \<Rightarrow>
          (let ocr = strip ocr_out in
           Inr (strip (join [10] (filter (\<lambda>t. t \<noteq> []) [extracted, ocr])))))"

section \<open>The Document Assembler\<close>

text \<open>
  The output document is the list of its pages. \<^verbatim>\<open>out.insert_pdf(src, from_page=i, to_page=i)\<close>
  appends a copy of page \<open>i\<close> of the source; \<^verbatim>\<open>out.new_page(width, height)\<close> appends a
  new page, on which the header
  \<^verbatim>\<open>f"Page {i+1} ... Arabic Translation ({j}/{len(chunks)})"\<close> and the shaped text are
  written. A generated page keeps the three numbers of its header and its text.
\<close>

record gen_page =
  width :: rat
  height :: rat
  header_page :: nat
  header_part :: nat
  header_total :: nat
  body :: pystr

datatype 'page out_page = Copied nat 'page | Generated gen_page

definition no_text_on_page :: pystr where
  "no_text_on_page = ascii ''(No text found on this page)''"

text \<open>The Arabic placeholder of the source, as its code points.\<close>

definition no_translation :: pystr where
  "no_translation =
     [40, 1578, 1593, 1584, 1585, 32, 1575, 1604, 1581, 1589, 1608, 1604, 32, 1593, 1604, 1609,
      32, 1578, 1585, 1580, 1605, 1577, 41]"

text \<open>
  The text of one page:
  \<^verbatim>\<open>
  english = extract_text_from_pdf_page(src_page).strip()
  if not english:
      english = "(No text found on this page)"
  arabic = translate_chunked(english).strip()
  if not arabic:
      arabic = "(...)"
  \<close>
\<close>

definition page_arabic :: "('file, 'page, 'img) collaborators \<Rightarrow> 'page \<Rightarrow> py_exception + pystr" where
  "page_arabic env src_page =
     (case extract_text_from_pdf_page env src_page of
        Inl e \<Rightarrow> Inl e
      | Inr full \<Rightarrow>
          (let english0 = strip full;
               english = (if english0 = [] then no_text_on_page else english0)
           in case snd (translate_chunked (translate env) english 3500) of
                Inl e \<Rightarrow> Inl e
              | Inr t \<Rightarrow>
                  (let arabic0 = strip t in
                   Inr (if arabic0 = [] then no_translation else arabic0))))"

text \<open>
  \<^verbatim>\<open>
  for j, chunk in enumerate(chunks, start=1):
      tp = out.new_page(width=rect.width, height=rect.height)
      ...
      prepared_ar = prepare_arabic_for_pdf(chunk)
      tp.insert_textbox(box, prepared_ar, ...)
  \<close>
\<close>

fun new_pages ::
  "('file, 'page, 'img) collaborators \<Rightarrow> nat \<Rightarrow> rat \<times> rat \<Rightarrow> nat \<Rightarrow> nat \<Rightarrow> pystr list \<Rightarrow>
   'page out_page list \<Rightarrow> 'page out_page list" where
  "new_pages env i rect n_chunks j [] out = out"
| "new_pages env i rect n_chunks j (chunk # chunks) out =
     new_pages env i rect n_chunks (j + 1) chunks
       (out @ [Generated \<lparr>width = fst rect, height = snd rect, header_page = i + 1,
                           header_part = j, header_total = n_chunks,
                           body = prepare_arabic_for_pdf (reshape env) (get_display env) chunk\<rparr>])"

text \<open>
  \<^verbatim>\<open>
  for i in range(src.page_count):
      src_page = src[i]
      out.insert_pdf(src, from_page=i, to_page=i)
      ...
      rect = src_page.rect
      chunks = split_for_pdf(arabic, max_chars=2600)
      for j, chunk in enumerate(chunks, start=1): ...
  \<close>
  The loop runs over the indices still to come; an exception ends it.
\<close>

fun build_loop ::
  "('file, 'page, 'img) collaborators \<Rightarrow> 'page list \<Rightarrow> nat list \<Rightarrow> 'page out_page list \<Rightarrow>
   py_exception + 'page out_page list" where
  "build_loop env src [] out = Inr out"
| "build_loop env src (i # rest) out =
     (let src_page = src ! i;
          out1 = out @ [Copied i src_page]
      in case page_arabic env src_page of
           Inl e \<Rightarrow> Inl e
         | Inr arabic \<Rightarrow>
             (let rect = page_rect env src_page;
                  chunks = split_for_pdf arabic 2600
              in build_loop env src rest (new_pages env i rect (length chunks) 1 chunks out1)))"

text \<open>
  \<^verbatim>\<open>build_translated_pdf\<close>: the document saved at the output path, or the exception
  raised before anything is saved.
\<close>

definition build_translated_pdf ::
  "('file, 'page, 'img) collaborators \<Rightarrow> 'file \<Rightarrow> py_exception + 'page out_page list" where
  "build_translated_pdf env input_pdf =
     (case fitz_open env input_pdf of
        Inl e \<Rightarrow> Inl e
      | Inr src \<Rightarrow> build_loop env src [0..<length src] [])"

section \<open>The request handlers\<close>

text \<open>
  A handler's effect is the list of replies it sends, in order, and the exception that
  leaves the handler, if any. \<open>download\<close> is the outcome of fetching the sender's file
  from the messaging transport (\<^verbatim>\<open>get_file\<close>, \<^verbatim>\<open>download_to_drive\<close>), which the handlers
  call outside their \<^verbatim>\<open>try\<close> blocks.
\<close>

datatype 'page attachment = PdfFile "'page out_page list" | TextFile pystr

datatype 'page reply = ReplyText pystr | ReplyDocument pystr "'page attachment"

type_synonym 'page effect = "'page reply list \<times> py_exception option"

text \<open>
  \<^verbatim>\<open>
  async def handle_pdf(update, context):
      await update.message.reply_text("Processing your PDF (OCR + translation)...")
      tg_file = await update.message.document.get_file()
      with tempfile.TemporaryDirectory() as tmp:
          ...
          await tg_file.download_to_drive(input_path)
          try:
              await asyncio.to_thread(build_translated_pdf, input_path, output_path)
          except Exception as e:
              await update.message.reply_text(f"Failed to process PDF: {e}")
              return
          with open(output_path, "rb") as f:
              await update.message.reply_document(document=f, filename="translated.pdf")
  \<close>
\<close>

definition handle_pdf ::
  "('file, 'page, 'img) collaborators \<Rightarrow> py_exception + 'file \<Rightarrow> 'page effect" where
  "handle_pdf env download =
     (let sent = [ReplyText (ascii ''Processing your PDF (OCR + translation)...'')] in
      case download of
        Inl e \<Rightarrow> (sent, Some e)
      | Inr input_pdf \<Rightarrow>
          (case build_translated_pdf env input_pdf of
             Inl e \<Rightarrow> (sent @ [ReplyText (ascii ''Failed to process PDF: '' @ exc_str e)], None)
           | Inr out \<Rightarrow> (sent @ [ReplyDocument (ascii ''translated.pdf'') (PdfFile out)], None)))"

text \<open>
  \<^verbatim>\<open>
  def ocr_and_translate() -> Tuple[str, str]:
      img = Image.open(img_path)
      extracted = (ocr_pil_image(img) or "").strip()
      if not extracted:
          extracted = "(No text found)"
      arabic = translate_chunked(extracted).strip()
      if not arabic:
          arabic = "(...)"
      return extracted, arabic
  \<close>
\<close>

definition ocr_and_translate ::
  "('file, 'page, 'img) collaborators \<Rightarrow> 'img \<Rightarrow> py_exception + (pystr \<times> pystr)" where
  "ocr_and_translate env img =
     (case ocr_image env img of
        Inl e \<Rightarrow> Inl e
      | Inr t \<Rightarrow>
          (let extracted0 = strip t;
               extracted = (if extracted0 = [] then ascii ''(No text found)'' else extracted0)
           in case snd (translate_chunked (translate env) extracted 3500) of
                Inl e \<Rightarrow> Inl e
              | Inr a \<Rightarrow>
                  (let arabic0 = strip a in
                   Inr (extracted, if arabic0 = [] then no_translation else arabic0))))"

text \<open>
  \<^verbatim>\<open>
  async def handle_image(update, context):
      await update.message.reply_text("Processing image (OCR + translation)...")
      ... (the photo or the image document is fetched into img_path)
          try:
              extracted, arabic = await asyncio.to_thread(ocr_and_translate)
          except Exception as e:
              await update.message.reply_text(f"Failed to process image: {e}")
              return
          if len(arabic) <= 3500:
              await update.message.reply_text(arabic)
          else:
              txt_path = os.path.join(tmp, "translation_ar.txt")
              with open(txt_path, "w", encoding="utf-8") as f:
                  f.write(arabic)
              with open(txt_path, "rb") as f:
                  await update.message.reply_document(document=f, filename="translation_ar.txt")
  \<close>
  The text file is the string written to it.
\<close>

definition handle_image ::
  "('file, 'page, 'img) collaborators \<Rightarrow> py_exception + 'img \<Rightarrow> 'page effect" where
  "handle_image env download =
     (let sent = [ReplyText (ascii ''Processing image (OCR + translation)...'')] in
      case download of
        Inl e \<Rightarrow> (sent, Some e)
      | Inr img \<Rightarrow>
          (case ocr_and_translate env img of
             Inl e \<Rightarrow> (sent @ [ReplyText (ascii ''Failed to process image: '' @ exc_str e)], None)
           | Inr (extracted, arabic) \<Rightarrow>
               if int (length arabic) \<le> 3500 then (sent @ [ReplyText arabic], None)
               else (sent @ [ReplyDocument (ascii ''translation_ar.txt'') (TextFile arabic)], None)))"

text \<open>
  \<^verbatim>\<open>
  async def handle_text(update, context):
      text = (update.message.text or "").strip()
      if not text:
          return
      arabic = await asyncio.to_thread(translate_chunked, text)
      await update.message.reply_text(arabic or "(...)")
  \<close>
  \<^verbatim>\<open>update.message.text\<close> may be \<^verbatim>\<open>None\<close>. There is no \<^verbatim>\<open>try\<close> in this handler.
\<close>

definition handle_text ::
  "('file, 'page, 'img) collaborators \<Rightarrow> pystr option \<Rightarrow> 'page effect" where
  "handle_text env message_text =
     (let text = strip (case message_text of None \<Rightarrow> [] | Some s \<Rightarrow> s) in
      if text = [] then ([], None)
      else
        (case snd (translate_chunked (translate env) text 3500) of
           Inl e \<Rightarrow> ([], Some e)
         | Inr arabic \<Rightarrow> ([ReplyText (if arabic \<noteq> [] then arabic else no_translation)], None)))"

section \<open>The layout of the output document, as the specification states it\<close>

text \<open>
  The specification describes the output document by the kind of each page: for each
  source page \<open>i\<close> in order, one verbatim copy of page \<open>i\<close>, followed immediately by
  \<open>K\<^sub>i\<close> generated translation pages. \<open>spec_layout\<close> follows these words; it is not
  taken from the code. \<open>kind_of\<close> reads the kind of a page of the model: a generated
  page belongs to the source page its header names, \<^verbatim>\<open>Page {i+1}\<close>.
\<close>

datatype 'page page_kind = CopyOf nat 'page | TranslationOf nat

fun kind_of :: "'page out_page \<Rightarrow> 'page page_kind" where
  "kind_of (Copied i p) = CopyOf i p"
| "kind_of (Generated g) = TranslationOf (header_page g - 1)"

definition spec_layout :: "'page list \<Rightarrow> nat list \<Rightarrow> 'page page_kind list" where
  "spec_layout src ks =
     concat (map (\<lambda>i. CopyOf i (src ! i) # replicate (ks ! i) (TranslationOf i)) [0..<length src])"

section \<open>Two concrete environments\<close>

text \<open>
  An environment for running the model: a file of two pages, numbered 0 and 1, the
  first with the embedded text \<open>Hi\<close> and the second without text; an OCR engine that finds
  nothing on a page and reads \<open>TEST\<close> in an image; a translation that reverses its
  argument; shaping that changes nothing. In the second environment every translation
  call raises.
\<close>

definition demo_env :: "(unit, nat, unit) collaborators" where
  "demo_env =
     \<lparr>fitz_open = (\<lambda>f. Inr [0, 1]),
      get_text = (\<lambda>p. if p = 0 then [72, 105] else []),
      ocr_page = (\<lambda>p. Inr []),
      page_rect = (\<lambda>p. (612, 792)),
      ocr_image = (\<lambda>i. Inr [84, 69, 83, 84]),
      translate = (\<lambda>s. Inr (rev s)),
      reshape = (\<lambda>s. s),
      get_display = (\<lambda>s. s)\<rparr>"

definition failing_env :: "(unit, nat, unit) collaborators" where
  "failing_env = demo_env\<lparr>translate := (\<lambda>s. Inl (CollaboratorError (ascii ''timed out'')))\<rparr>"

section \<open>Facts about the string operations\<close>

lemma is_linebreak_isspace: "is_linebreak c \<Longrightarrow> isspace c"
  by (auto simp: is_linebreak_def isspace_def)

lemma strip_Nil [simp]: "strip [] = []"
  by (simp add: strip_def)

lemma length_strip: "length (strip s) \<le> length s"
proof -
  have "length (dropWhile isspace (rev (dropWhile isspace s))) \<le> length (rev (dropWhile isspace s))"
    by (rule length_dropWhile_le)
  moreover have "length (dropWhile isspace s) \<le> length s" by (rule length_dropWhile_le)
  ultimately show ?thesis by (simp add: strip_def)
qed

lemma set_strip: "set (strip s) \<subseteq> set s"
proof -
  have "set (strip s) \<subseteq> set (rev (dropWhile isspace s))"
    unfolding strip_def set_rev by (auto dest: set_dropWhileD)
  also have "\<dots> \<subseteq> set s" by (auto dest: set_dropWhileD)
  finally show ?thesis .
qed

lemma strip_eq_Nil_iff: "strip s = [] \<longleftrightarrow> (\<forall>c \<in> set s. isspace c)"
proof
  assume "strip s = []"
  then have "\<forall>c \<in> set (dropWhile isspace s). isspace c"
    by (simp add: strip_def dropWhile_eq_Nil_conv)
  then have "dropWhile isspace s = []"
    using hd_dropWhile[of isspace s] by (cases "dropWhile isspace s") auto
  then show "\<forall>c \<in> set s. isspace c" by (simp add: dropWhile_eq_Nil_conv)
next
  assume "\<forall>c \<in> set s. isspace c"
  then show "strip s = []" by (auto simp: strip_def dest: set_dropWhileD)
qed

lemma filter_dropWhile_not: "filter (\<lambda>c. \<not> P c) (dropWhile P xs) = filter (\<lambda>c. \<not> P c) xs"
  by (induction xs) auto

lemma filter_strip: "filter (\<lambda>c. \<not> isspace c) (strip s) = filter (\<lambda>c. \<not> isspace c) s"
proof -
  have "filter (\<lambda>c. \<not> isspace c) (strip s) = rev (filter (\<lambda>c. \<not> isspace c) (dropWhile isspace (rev (dropWhile isspace s))))"
    by (simp add: strip_def rev_filter)
  also have "\<dots> = rev (filter (\<lambda>c. \<not> isspace c) (rev (dropWhile isspace s)))"
    by (simp only: filter_dropWhile_not)
  also have "\<dots> = filter (\<lambda>c. \<not> isspace c) s"
    by (simp add: rev_filter filter_dropWhile_not)
  finally show ?thesis .
qed

lemma hd_strip_not_space: "strip s \<noteq> [] \<Longrightarrow> \<not> isspace (hd (strip s))"
proof -
  assume ne: "strip s \<noteq> []"
  let ?d = "dropWhile isspace s"
  have d_ne: "?d \<noteq> []" using ne by (cases "dropWhile isspace s = []") (simp_all add: strip_def)
  then have hd_d: "\<not> isspace (hd ?d)" by (rule hd_dropWhile)
  obtain x xs where d: "?d = x # xs" using d_ne by (cases ?d) auto
  with hd_d have x: "\<not> isspace x" by simp
  have "strip s = rev (dropWhile isspace (rev xs @ [x]))" by (simp add: strip_def d)
  also have "\<dots> = x # rev (dropWhile isspace (rev xs))"
    using x by (simp add: dropWhile_append)
  finally show ?thesis using x by simp
qed


lemma isspace_nl [simp]: "isspace 10" "isspace 13"
  by (simp_all add: isspace_def)

lemma filter_splitlines_from:
  "filter nonspace (concat (splitlines_from cur s)) = filter nonspace (cur @ s)"
  by (induction cur s rule: splitlines_from.induct) (auto simp: is_linebreak_isspace)

lemma filter_splitlines:
  "filter nonspace (concat (splitlines s)) = filter nonspace s"
  by (simp add: splitlines_def filter_splitlines_from)

lemma strip_append_space: "isspace c \<Longrightarrow> strip (b @ [c]) = strip b"
proof (cases "\<forall>x \<in> set b. isspace x")
  case True
  assume "isspace c"
  with True have "strip (b @ [c]) = []" by (simp add: strip_eq_Nil_iff)
  moreover from True have "strip b = []" by (simp add: strip_eq_Nil_iff)
  ultimately show ?thesis by simp
next
  case False
  assume c: "isspace c"
  from False have "dropWhile isspace (b @ [c]) = dropWhile isspace b @ [c]"
    by (auto simp: dropWhile_append)
  then show ?thesis using c by (simp add: strip_def)
qed

lemma loop_filter:
  "split_for_pdf_loop m ls pages buf = (pages', buf') \<Longrightarrow>
   filter nonspace (concat pages' @ buf') = filter nonspace (concat pages @ buf @ concat ls)"
proof (induction ls arbitrary: pages buf)
  case Nil
  then show ?case by simp
next
  case (Cons l ls)
  show ?case
  proof (cases "int (length buf) + int (length l) + 1 \<le> m")
    case True
    with Cons.prems have "split_for_pdf_loop m ls pages (buf @ l @ [10]) = (pages', buf')" by simp
    from Cons.IH[OF this] show ?thesis by simp
  next
    case False
    with Cons.prems have "split_for_pdf_loop m ls (pages @ [strip buf]) (l @ [10]) = (pages', buf')" by simp
    from Cons.IH[OF this] show ?thesis by (simp add: filter_strip)
  qed
qed

lemma filter_nonspace_Nil_strip: "strip b = [] \<Longrightarrow> filter nonspace b = []"
  by (simp add: strip_eq_Nil_iff filter_empty_conv)

lemma last_strip_not_space: "strip s \<noteq> [] \<Longrightarrow> \<not> isspace (last (strip s))"
proof -
  assume ne: "strip s \<noteq> []"
  let ?e = "dropWhile isspace (rev (dropWhile isspace s))"
  have e_ne: "?e \<noteq> []" using ne by (simp add: strip_def)
  then have "\<not> isspace (hd ?e)" by (rule hd_dropWhile)
  moreover have "last (strip s) = hd ?e" using e_ne by (simp add: strip_def last_rev)
  ultimately show ?thesis by simp
qed

lemma dropWhile_id: "xs = [] \<or> \<not> P (hd xs) \<Longrightarrow> dropWhile P xs = xs"
  by (cases xs) auto

lemma strip_strip: "strip (strip s) = strip s"
proof (cases "strip s = []")
  case True
  then show ?thesis by simp
next
  case False
  have a: "dropWhile isspace (strip s) = strip s"
    using hd_strip_not_space[OF False] by (simp add: dropWhile_id)
  have "hd (rev (strip s)) = last (strip s)" using False by (simp add: hd_rev)
  then have b: "dropWhile isspace (rev (strip s)) = rev (strip s)"
    using last_strip_not_space[OF False] by (simp add: dropWhile_id)
  have "strip (strip s) = rev (dropWhile isspace (rev (dropWhile isspace (strip s))))"
    by (simp only: strip_def[of "strip s"])
  also have "\<dots> = strip s" by (simp only: a b rev_rev_ident)
  finally show ?thesis .
qed

lemma split_nl_from_no_nl: "10 \<notin> set s \<Longrightarrow> split_nl_from cur s = [cur @ s]"
  by (induction s arbitrary: cur) auto

lemma split_nl_no_nl: "10 \<notin> set s \<Longrightarrow> split_nl s = [s]"
  by (simp add: split_nl_def split_nl_from_no_nl)

lemma splitlines_from_crlf: "splitlines_from cur (13 # 10 # cs) = cur # splitlines_from [] cs"
  by simp

lemma splitlines_from_break:
  "is_linebreak c \<Longrightarrow> \<not> (c = 13 \<and> s \<noteq> [] \<and> hd s = 10) \<Longrightarrow>
   splitlines_from cur (c # s) = cur # splitlines_from [] s"
  by (cases s) auto

lemma splitlines_from_char:
  "\<not> is_linebreak c \<Longrightarrow> splitlines_from cur (c # s) = splitlines_from (cur @ [c]) s"
  by (cases s) (auto simp: is_linebreak_def)

lemma splitlines_from_induct [case_names Nil crlf break char]:
  assumes nil: "\<And>cur. P cur []"
    and crlf: "\<And>cur cs. P [] cs \<Longrightarrow> P cur (13 # 10 # cs)"
    and break: "\<And>cur c s. is_linebreak c \<Longrightarrow> \<not> (c = 13 \<and> s \<noteq> [] \<and> hd s = 10) \<Longrightarrow>
                  P [] s \<Longrightarrow> P cur (c # s)"
    and char: "\<And>cur c s. \<not> is_linebreak c \<Longrightarrow> P (cur @ [c]) s \<Longrightarrow> P cur (c # s)"
  shows "P cur s"
proof (induction s arbitrary: cur rule: length_induct)
  case (1 s)
  show ?case
  proof (cases s)
    case Nil
    then show ?thesis by (simp add: nil)
  next
    case (Cons c s')
    show ?thesis
    proof (cases "c = 13 \<and> s' \<noteq> [] \<and> hd s' = 10")
      case True
      then obtain cs where s': "s' = 10 # cs" by (cases s') auto
      have "P [] cs" using 1 Cons s' by simp
      then show ?thesis using crlf True Cons s' by simp
    next
      case False
      show ?thesis
      proof (cases "is_linebreak c")
        case True
        have "P [] s'" using 1 Cons by simp
        from break[OF True False this] Cons show ?thesis by simp
      next
        case nb: False
        have "P (cur @ [c]) s'" using 1 Cons by simp
        from char[OF nb this] Cons show ?thesis by simp
      qed
    qed
  qed
qed

lemma splitlines_from_last:
  "cur @ s \<noteq> [] \<Longrightarrow> \<not> isspace (last (cur @ s)) \<Longrightarrow>
   splitlines_from cur s \<noteq> [] \<and> last (splitlines_from cur s) \<noteq> [] \<and>
   last (last (splitlines_from cur s)) = last (cur @ s)"
proof (induction cur s rule: splitlines_from_induct)
  case (Nil cur)
  then show ?case by simp
next
  case (crlf cur cs)
  from crlf.prems have ne: "cs \<noteq> []" by (cases cs) auto
  with crlf.prems have "\<not> isspace (last ([] @ cs))" by simp
  with crlf.IH ne have "splitlines_from [] cs \<noteq> [] \<and> last (splitlines_from [] cs) \<noteq> [] \<and>
     last (last (splitlines_from [] cs)) = last cs" by simp
  with ne show ?case by (simp only: splitlines_from_crlf) simp
next
  case (break cur c s)
  from break.hyps(1) have "isspace c" by (rule is_linebreak_isspace)
  with break.prems have ne: "s \<noteq> []" by (cases s) auto
  with break.prems have "\<not> isspace (last ([] @ s))" by simp
  with break.IH ne have "splitlines_from [] s \<noteq> [] \<and> last (splitlines_from [] s) \<noteq> [] \<and>
     last (last (splitlines_from [] s)) = last s" by simp
  with ne show ?case by (simp only: splitlines_from_break[OF break.hyps(1,2)]) simp
next
  case (char cur c s)
  from char.prems have "(cur @ [c]) @ s \<noteq> []" "\<not> isspace (last ((cur @ [c]) @ s))" by simp_all
  from char.IH[OF this] show ?case by (simp only: splitlines_from_char[OF char.hyps]) simp
qed

lemma splitlines_from_mono:
  "\<forall>l \<in> set (splitlines_from cur s). length l \<le> k \<Longrightarrow> length cur' \<le> length cur \<Longrightarrow>
   \<forall>l \<in> set (splitlines_from cur' s). length l \<le> k"
proof (induction cur s arbitrary: cur' rule: splitlines_from_induct)
  case (Nil cur)
  then show ?case by (cases "cur = []") auto
next
  case (crlf cur cs)
  then show ?case by (simp only: splitlines_from_crlf) auto
next
  case (break cur c s)
  then show ?case by (simp only: splitlines_from_break[OF break.hyps(1,2)]) auto
next
  case (char cur c s)
  from char.prems(1) have a: "\<forall>l \<in> set (splitlines_from (cur @ [c]) s). length l \<le> k"
    by (simp only: splitlines_from_char[OF char.hyps])
  from char.prems(2) have "length (cur' @ [c]) \<le> length (cur @ [c])" by simp
  from char.IH[OF a this] show ?case by (simp only: splitlines_from_char[OF char.hyps])
qed

lemma splitlines_drop_front:
  assumes a: "\<forall>l \<in> set (splitlines (c # s)). length l \<le> k"
  shows "\<forall>l \<in> set (splitlines s). length l \<le> k"
proof (cases "c = 13 \<and> s \<noteq> [] \<and> hd s = 10")
  case True
  then obtain cs where s: "s = 10 # cs" by (cases s) auto
  have lb: "is_linebreak 10" by (simp add: is_linebreak_def)
  have "splitlines s = [] # splitlines_from [] cs"
    unfolding splitlines_def s by (rule splitlines_from_break[OF lb]) simp
  moreover have "splitlines (c # s) = [] # splitlines_from [] cs"
    using True s by (simp add: splitlines_def)
  ultimately show ?thesis using a by simp
next
  case False
  show ?thesis
  proof (cases "is_linebreak c")
    case True
    from a show ?thesis
      unfolding splitlines_def by (simp only: splitlines_from_break[OF True False]) simp
  next
    case nb: False
    from a have "\<forall>l \<in> set (splitlines_from ([] @ [c]) s). length l \<le> k"
      unfolding splitlines_def by (simp only: splitlines_from_char[OF nb])
    from splitlines_from_mono[OF this, of "[]"] show ?thesis by (simp add: splitlines_def)
  qed
qed

lemma splitlines_suffix:
  "\<forall>l \<in> set (splitlines (xs @ ys)). length l \<le> k \<Longrightarrow> \<forall>l \<in> set (splitlines ys). length l \<le> k"
proof (induction xs)
  case Nil
  then show ?case by simp
next
  case (Cons x xs)
  from splitlines_drop_front[of x "xs @ ys" k] Cons show ?case by simp
qed

lemma splitlines_from_drop_back:
  "\<forall>l \<in> set (splitlines_from cur (s @ [e])). length l \<le> k \<Longrightarrow>
   \<forall>l \<in> set (splitlines_from cur s). length l \<le> k"
proof (induction cur s rule: splitlines_from_induct)
  case (Nil cur)
  then show ?case by (auto split: if_splits)
next
  case (crlf cur cs)
  from crlf.prems have "\<forall>l \<in> set (splitlines_from cur (13 # 10 # (cs @ [e]))). length l \<le> k" by simp
  then have "length cur \<le> k" "\<forall>l \<in> set (splitlines_from [] (cs @ [e])). length l \<le> k"
    by (simp_all only: splitlines_from_crlf) simp_all
  with crlf.IH show ?case by (simp only: splitlines_from_crlf) simp
next
  case (break cur c s)
  show ?case
  proof (cases "s = []")
    case True
    with break.prems break.hyps(1) show ?thesis by (auto split: if_splits)
  next
    case False
    with break.hyps(2) have n: "\<not> (c = 13 \<and> s @ [e] \<noteq> [] \<and> hd (s @ [e]) = 10)" by simp
    from break.prems have "\<forall>l \<in> set (splitlines_from cur (c # (s @ [e]))). length l \<le> k" by simp
    then have "length cur \<le> k" "\<forall>l \<in> set (splitlines_from [] (s @ [e])). length l \<le> k"
      by (simp_all only: splitlines_from_break[OF break.hyps(1) n]) simp_all
    with break.IH show ?thesis by (simp only: splitlines_from_break[OF break.hyps(1,2)]) simp
  qed
next
  case (char cur c s)
  from char.prems have "\<forall>l \<in> set (splitlines_from cur (c # (s @ [e]))). length l \<le> k" by simp
  then have "\<forall>l \<in> set (splitlines_from (cur @ [c]) (s @ [e])). length l \<le> k"
    by (simp only: splitlines_from_char[OF char.hyps])
  from char.IH[OF this] show ?case by (simp only: splitlines_from_char[OF char.hyps])
qed

lemma splitlines_prefix:
  "\<forall>l \<in> set (splitlines (xs @ ys)). length l \<le> k \<Longrightarrow> \<forall>l \<in> set (splitlines xs). length l \<le> k"
proof (induction ys rule: rev_induct)
  case Nil
  then show ?case by simp
next
  case (snoc y ys)
  from snoc.prems have "\<forall>l \<in> set (splitlines_from [] ((xs @ ys) @ [y])). length l \<le> k"
    by (simp add: splitlines_def)
  then have "\<forall>l \<in> set (splitlines_from [] (xs @ ys)). length l \<le> k"
    by (rule splitlines_from_drop_back)
  with snoc.IH show ?case by (simp add: splitlines_def)
qed

lemma splitlines_strip_bound:
  assumes "\<forall>l \<in> set (splitlines s). length l \<le> k"
  shows "\<forall>l \<in> set (splitlines (strip s)). length l \<le> k"
proof -
  let ?d = "dropWhile isspace s"
  have "s = takeWhile isspace s @ ?d" by simp
  with assms have d: "\<forall>l \<in> set (splitlines ?d). length l \<le> k"
    using splitlines_suffix[of "takeWhile isspace s" ?d k] by simp
  have "strip s @ rev (takeWhile isspace (rev ?d)) =
        rev (takeWhile isspace (rev ?d) @ dropWhile isspace (rev ?d))"
    by (simp only: strip_def rev_append)
  also have "\<dots> = rev (rev ?d)" by (simp only: takeWhile_dropWhile_id)
  also have "\<dots> = ?d" by (simp only: rev_rev_ident)
  finally have "?d = strip s @ rev (takeWhile isspace (rev ?d))" by (rule sym)
  with d show ?thesis
    using splitlines_prefix[of "strip s" "rev (takeWhile isspace (rev ?d))" k] by simp
qed


lemma splitlines_from_nobreak:
  "\<forall>c \<in> set x. \<not> is_linebreak c \<Longrightarrow> splitlines_from cur (x @ s) = splitlines_from (cur @ x) s"
proof (induction x arbitrary: cur)
  case Nil
  then show ?case by simp
next
  case (Cons c x)
  then have "splitlines_from cur (c # (x @ s)) = splitlines_from (cur @ [c]) (x @ s)"
    by (intro splitlines_from_char) simp
  with Cons show ?case by simp
qed

lemma splitlines_from_lf: "splitlines_from cur (10 # s) = cur # splitlines_from [] s"
  by (rule splitlines_from_break) (simp_all add: is_linebreak_def)

lemma splitlines_from_join:
  "xs \<noteq> [] \<Longrightarrow> last xs \<noteq> [] \<Longrightarrow> \<forall>x \<in> set xs. \<forall>c \<in> set x. \<not> is_linebreak c \<Longrightarrow>
   splitlines_from cur (join [10] xs) = (cur @ hd xs) # tl xs"
proof (induction "[10::nat]" xs arbitrary: cur rule: join.induct)
  case 1
  then show ?case by simp
next
  case (2 x)
  then have "splitlines_from cur (x @ []) = splitlines_from (cur @ x) []"
    by (intro splitlines_from_nobreak) simp
  with 2 show ?case by simp
next
  case (3 x y ys)
  from "3.prems" have x: "\<forall>c \<in> set x. \<not> is_linebreak c" by simp
  from "3.prems" have "splitlines_from [] (join [10] (y # ys)) = ([] @ hd (y # ys)) # tl (y # ys)"
    by (intro "3.hyps") simp_all
  then have r: "splitlines_from [] (join [10] (y # ys)) = y # ys" by simp
  have "splitlines_from cur (join [10] (x # y # ys)) =
        splitlines_from (cur @ x) (10 # join [10] (y # ys))"
    using splitlines_from_nobreak[OF x, of cur "10 # join [10] (y # ys)"] by simp
  also have "\<dots> = (cur @ x) # y # ys" by (simp only: splitlines_from_lf r)
  finally show ?case by simp
qed

lemma splitlines_join:
  "xs \<noteq> [] \<Longrightarrow> last xs \<noteq> [] \<Longrightarrow> \<forall>x \<in> set xs. \<forall>c \<in> set x. \<not> is_linebreak c \<Longrightarrow>
   splitlines (join [10] xs) = xs"
  using splitlines_from_join[of xs "[]"] by (simp add: splitlines_def)


lemma without_breaks_Nil [simp]: "without_breaks [] = []"
  by (simp add: without_breaks_def)

lemma without_breaks_lf [simp]: "without_breaks [10] = []"
  by (simp add: without_breaks_def is_linebreak_def)






section \<open>Properties of the Page Paginator\<close>

lemma loop_pages_keep:
  "pages \<noteq> [] \<Longrightarrow> fst (split_for_pdf_loop m ls pages buf) \<noteq> []"
  by (induction ls arbitrary: pages buf) auto

lemma loop_some_page:
  "\<exists>c \<in> set buf \<union> set (concat ls). \<not> isspace c \<Longrightarrow>
   fst (split_for_pdf_loop m ls pages buf) \<noteq> [] \<or> strip (snd (split_for_pdf_loop m ls pages buf)) \<noteq> []"
proof (induction ls arbitrary: pages buf)
  case Nil
  then show ?case by (auto simp: strip_eq_Nil_iff)
next
  case (Cons l ls)
  show ?case
  proof (cases "int (length buf) + int (length l) + 1 \<le> m")
    case True
    from Cons.prems have "\<exists>c \<in> set (buf @ l @ [10]) \<union> set (concat ls). \<not> isspace c" by auto
    from Cons.IH[OF this] True show ?thesis by simp
  next
    case False
    then show ?thesis using loop_pages_keep[of "pages @ [strip buf]" m ls "l @ [10]"] by simp
  qed
qed

lemma split_for_pdf_not_Nil:
  assumes pos: "0 < max_chars"
  shows "split_for_pdf text max_chars \<noteq> []"
proof (cases "int (length (strip text)) \<le> max_chars")
  case True
  then show ?thesis by (simp add: split_for_pdf_def Let_def)
next
  case False
  with pos have "strip text \<noteq> []" by auto
  then have "filter nonspace (strip text) \<noteq> []"
    using hd_strip_not_space[of "text"] by (cases "strip text") auto
  then have "filter nonspace (concat (splitlines (strip text))) \<noteq> []"
    by (simp add: filter_splitlines)
  then have "\<exists>c \<in> set [] \<union> set (concat (splitlines (strip text))). \<not> isspace c"
    by (auto simp: filter_empty_conv)
  from loop_some_page[OF this, of max_chars "[]"] False show ?thesis
    by (auto simp: split_for_pdf_def Let_def split: prod.splits)
qed

lemma split_for_pdf_blank:
  assumes "0 < max_chars" and "\<forall>c \<in> set text. isspace c"
  shows "split_for_pdf text max_chars = [[]]"
proof -
  from assms(2) have "strip text = []" by (simp add: strip_eq_Nil_iff)
  with assms(1) show ?thesis by (simp add: split_for_pdf_def)
qed

text \<open>
  Claim C8. For every input string and every positive capacity, \<open>split_for_pdf\<close> returns
  at least one page; an input that is empty or consists of white space only gives
  exactly one page, the empty string.
\<close>

theorem split_for_pdf_at_least_one_page:
  "0 < max_chars \<Longrightarrow>
   1 \<le> length (split_for_pdf text max_chars) \<and>
   ((\<forall>c \<in> set text. isspace c) \<longrightarrow> split_for_pdf text max_chars = [[]])"
proof -
  assume pos: "0 < max_chars"
  have "split_for_pdf text max_chars \<noteq> []" using pos by (rule split_for_pdf_not_Nil)
  then have "1 \<le> length (split_for_pdf text max_chars)"
    by (cases "split_for_pdf text max_chars") auto
  then show ?thesis using split_for_pdf_blank[OF pos] by blast
qed

theorem split_for_pdf_at_least_one_page_witness:
  "0 < (3::int) \<and> isspace 32 \<and> isspace 10 \<and>
   1 \<le> length (split_for_pdf [32, 10] 3) \<and> split_for_pdf [32, 10] 3 = [[]]"
  using split_for_pdf_at_least_one_page [of 3 "[32, 10]"] by (simp add: isspace_def)

lemma split_for_pdf_nonspace_kept:
  "filter (\<lambda>c. \<not> isspace c) (concat (split_for_pdf text max_chars)) = filter (\<lambda>c. \<not> isspace c) text"
proof (cases "int (length (strip text)) \<le> max_chars")
  case True
  then show ?thesis using filter_strip[of "text"]
    by (cases "strip text = []") (simp_all add: split_for_pdf_def Let_def)
next
  case False
  obtain pages buf where r: "split_for_pdf_loop max_chars (splitlines (strip text)) [] [] = (pages, buf)"
    by (cases "split_for_pdf_loop max_chars (splitlines (strip text)) [] []") auto
  from loop_filter[OF r] have f: "filter nonspace (concat pages) @ filter nonspace buf = filter nonspace text"
    by (simp add: filter_splitlines filter_strip)
  show ?thesis
  proof (cases "strip buf = []")
    case True
    with f False r show ?thesis
      by (simp add: split_for_pdf_def Let_def filter_nonspace_Nil_strip)
  next
    case nonblank: False
    with f False r show ?thesis
      by (simp add: split_for_pdf_def Let_def filter_strip)
  qed
qed





lemma loop_groups:
  "split_for_pdf_loop m ls pages buf = (pages', buf') \<Longrightarrow>
   pages = map (\<lambda>g. strip (concat (map (\<lambda>l. l @ [10]) g))) gs \<Longrightarrow>
   buf = concat (map (\<lambda>l. l @ [10]) g) \<Longrightarrow>
   \<exists>gs' g'. pages' = map (\<lambda>g. strip (concat (map (\<lambda>l. l @ [10]) g))) gs' \<and>
            buf' = concat (map (\<lambda>l. l @ [10]) g') \<and>
            concat gs' @ g' = concat gs @ g @ ls \<and> (g @ ls \<noteq> [] \<longrightarrow> g' \<noteq> [])"
proof (induction ls arbitrary: pages buf gs g)
  case Nil
  then show ?case by auto
next
  case (Cons l ls)
  show ?case
  proof (cases "int (length buf) + int (length l) + 1 \<le> m")
    case True
    with Cons.prems(1) have r: "split_for_pdf_loop m ls pages (buf @ l @ [10]) = (pages', buf')"
      by simp
    have b: "buf @ l @ [10] = concat (map (\<lambda>l. l @ [10]) (g @ [l]))"
      using Cons.prems(3) by simp
    from Cons.IH[OF r Cons.prems(2) b] show ?thesis by simp
  next
    case False
    with Cons.prems(1)
    have r: "split_for_pdf_loop m ls (pages @ [strip buf]) (l @ [10]) = (pages', buf')"
      by simp
    have p: "pages @ [strip buf] = map (\<lambda>g. strip (concat (map (\<lambda>l. l @ [10]) g))) (gs @ [g])"
      using Cons.prems(2,3) by simp
    have b: "l @ [10] = concat (map (\<lambda>l. l @ [10]) [l])" by simp
    from Cons.IH[OF r p b] show ?thesis by simp
  qed
qed

lemma strip_render_nonempty:
  assumes "g \<noteq> []" and "last g \<noteq> []" and "\<not> isspace (last (last g))"
  shows "strip (concat (map (\<lambda>l. l @ [10]) g)) \<noteq> []"
proof -
  have "last (last g) \<in> set (last g)" using assms(2) by simp
  moreover have "last g \<in> set g" using assms(1) by simp
  ultimately have "last (last g) \<in> set (concat (map (\<lambda>l. l @ [10]) g))" by auto
  with assms(3) have "\<not> (\<forall>c \<in> set (concat (map (\<lambda>l. l @ [10]) g)). isspace c)" by blast
  then show ?thesis by (simp only: strip_eq_Nil_iff) simp
qed

lemma split_for_pdf_groups:
  assumes long: "max_chars < int (length (strip text))" and pos: "0 \<le> max_chars"
  shows "\<exists>groups. concat groups = splitlines (strip text) \<and>
     split_for_pdf text max_chars = map (\<lambda>g. strip (concat (map (\<lambda>l. l @ [10]) g))) groups"
proof -
  let ?t = "strip text"
  obtain pages buf where r: "split_for_pdf_loop max_chars (splitlines ?t) [] [] = (pages, buf)"
    by (cases "split_for_pdf_loop max_chars (splitlines ?t) [] []") auto
  from loop_groups[OF r, of "[]" "[]"] obtain gs g where
    p: "pages = map (\<lambda>g. strip (concat (map (\<lambda>l. l @ [10]) g))) gs" and
    b: "buf = concat (map (\<lambda>l. l @ [10]) g)" and
    c: "concat gs @ g = splitlines ?t" and
    g: "splitlines ?t \<noteq> [] \<longrightarrow> g \<noteq> []" by auto
  have ne: "?t \<noteq> []" using long pos by auto
  then have "\<not> isspace (last ?t)" by (rule last_strip_not_space)
  with ne have l: "splitlines ?t \<noteq> []" "last (splitlines ?t) \<noteq> []"
    "last (last (splitlines ?t)) = last ?t"
    using splitlines_from_last[of "[]" ?t] by (simp_all add: splitlines_def)
  have sb: "strip buf \<noteq> []"
  proof -
    from g l have gne: "g \<noteq> []" by simp
    with c have "last g = last (splitlines ?t)" by (metis last_appendR)
    with l gne \<open>\<not> isspace (last ?t)\<close> show ?thesis
      unfolding b by (intro strip_render_nonempty) simp_all
  qed
  have "split_for_pdf text max_chars = pages @ [strip buf]"
    using long r sb by (simp add: split_for_pdf_def)
  also have "\<dots> = map (\<lambda>g. strip (concat (map (\<lambda>l. l @ [10]) g))) (gs @ [g])"
    using p b by simp
  finally show ?thesis using c by (intro exI[of _ "gs @ [g]"]) simp
qed


lemma loop_bound:
  "split_for_pdf_loop m ls pages buf = (pages', buf') \<Longrightarrow> 0 \<le> m \<Longrightarrow>
   \<forall>l \<in> set ls. int (length l) \<le> m \<Longrightarrow>
   \<forall>p \<in> set pages. int (length p) \<le> m \<Longrightarrow>
   int (length (strip buf)) \<le> m \<Longrightarrow>
   (\<forall>p \<in> set pages'. int (length p) \<le> m) \<and> int (length (strip buf')) \<le> m"
proof (induction ls arbitrary: pages buf)
  case Nil
  then show ?case by simp
next
  case (Cons l ls)
  from Cons.prems(3) have ls: "\<forall>l \<in> set ls. int (length l) \<le> m" and l: "int (length l) \<le> m"
    by simp_all
  show ?case
  proof (cases "int (length buf) + int (length l) + 1 \<le> m")
    case True
    with Cons.prems(1) have r: "split_for_pdf_loop m ls pages (buf @ l @ [10]) = (pages', buf')"
      by simp
    have "strip (buf @ l @ [10]) = strip (buf @ l)"
      using strip_append_space[of 10 "buf @ l"] by simp
    moreover have "length (strip (buf @ l)) \<le> length (buf @ l)" by (rule length_strip)
    ultimately have "int (length (strip (buf @ l @ [10]))) \<le> m" using True by simp
    from Cons.IH[OF r Cons.prems(2) ls Cons.prems(4) this] show ?thesis .
  next
    case False
    with Cons.prems(1)
    have r: "split_for_pdf_loop m ls (pages @ [strip buf]) (l @ [10]) = (pages', buf')"
      by simp
    have p: "\<forall>p \<in> set (pages @ [strip buf]). int (length p) \<le> m"
      using Cons.prems(4,5) by simp
    have "strip (l @ [10]) = strip l" using strip_append_space[of 10 l] by simp
    moreover have "length (strip l) \<le> length l" by (rule length_strip)
    ultimately have "int (length (strip (l @ [10]))) \<le> m" using l by simp
    from Cons.IH[OF r Cons.prems(2) ls p this] show ?thesis .
  qed
qed

lemma split_for_pdf_bound:
  assumes pos: "0 < max_chars"
    and lines: "\<forall>l \<in> set (splitlines text). int (length l) \<le> max_chars"
  shows "\<forall>p \<in> set (split_for_pdf text max_chars). int (length p) \<le> max_chars"
proof (cases "int (length (strip text)) \<le> max_chars")
  case True
  with pos show ?thesis by (simp add: split_for_pdf_def Let_def)
next
  case False
  from lines have "\<forall>l \<in> set (splitlines text). length l \<le> nat max_chars" by auto
  then have "\<forall>l \<in> set (splitlines (strip text)). length l \<le> nat max_chars"
    by (rule splitlines_strip_bound)
  then have sl: "\<forall>l \<in> set (splitlines (strip text)). int (length l) \<le> max_chars"
    using pos by auto
  obtain pages buf where
    r: "split_for_pdf_loop max_chars (splitlines (strip text)) [] [] = (pages, buf)"
    by (cases "split_for_pdf_loop max_chars (splitlines (strip text)) [] []") auto
  from loop_bound[OF r _ sl] pos
  have "(\<forall>p \<in> set pages. int (length p) \<le> max_chars) \<and> int (length (strip buf)) \<le> max_chars"
    by simp
  with False r show ?thesis by (simp add: split_for_pdf_def Let_def)
qed

text \<open>
  Claim C3, as stated: a line longer than the capacity is divided, its remainder going
  to the next page. \<open>split_for_pdf\<close> has no such step. With capacity 3 the single line
  \<open>abcdef\<close> of six characters comes back whole, as the last page.
\<close>

theorem split_for_pdf_long_line_counterexample:
  "splitlines (strip [97, 98, 99, 100, 101, 102]) = [[97, 98, 99, 100, 101, 102]] \<and>
   (3::int) < int (length [97, 98, 99, 100, 101, 102]) \<and>
   split_for_pdf [97, 98, 99, 100, 101, 102] 3 = [[], [97, 98, 99, 100, 101, 102]]"
  by (simp add: split_for_pdf_def strip_def isspace_def splitlines_def is_linebreak_def)

text \<open>
  Claim C3, amended. For every input string and every positive capacity,
  \<open>split_for_pdf\<close> divides the text only at line boundaries and never inside a line:
  a text within the capacity is one page, the trimmed text; otherwise the lines of the
  trimmed text fall into consecutive groups and each page is one group, its lines
  ended by a line feed, trimmed. Every page has at most as many characters as the
  capacity whenever no line of the input is longer than the capacity.
\<close>

theorem split_for_pdf_whole_lines:
  assumes "0 < max_chars"
  shows "(int (length (strip text)) \<le> max_chars \<longrightarrow> split_for_pdf text max_chars = [strip text]) \<and>
    (max_chars < int (length (strip text)) \<longrightarrow>
       (\<exists>groups. concat groups = splitlines (strip text) \<and>
          split_for_pdf text max_chars =
            map (\<lambda>g. strip (concat (map (\<lambda>l. l @ [10]) g))) groups)) \<and>
    ((\<forall>l \<in> set (splitlines text). int (length l) \<le> max_chars) \<longrightarrow>
       (\<forall>p \<in> set (split_for_pdf text max_chars). int (length p) \<le> max_chars))"
proof (intro conjI impI)
  assume "int (length (strip text)) \<le> max_chars"
  then show "split_for_pdf text max_chars = [strip text]"
    by (simp add: split_for_pdf_def Let_def)
next
  assume "max_chars < int (length (strip text))"
  then show "\<exists>groups. concat groups = splitlines (strip text) \<and>
          split_for_pdf text max_chars =
            map (\<lambda>g. strip (concat (map (\<lambda>l. l @ [10]) g))) groups"
    using assms by (intro split_for_pdf_groups) simp_all
next
  assume "\<forall>l \<in> set (splitlines text). int (length l) \<le> max_chars"
  with assms show "\<forall>p \<in> set (split_for_pdf text max_chars). int (length p) \<le> max_chars"
    by (rule split_for_pdf_bound)
qed

theorem split_for_pdf_whole_lines_witness:
  "0 < (5::int) \<and> 5 < int (length (strip [97, 98, 10, 32, 32, 99, 100])) \<and>
   concat [[[97, 98]], [[32, 32, 99, 100]]] = splitlines (strip [97, 98, 10, 32, 32, 99, 100]) \<and>
   split_for_pdf [97, 98, 10, 32, 32, 99, 100] 5 =
     map (\<lambda>g. strip (concat (map (\<lambda>l. l @ [10]) g))) [[[97, 98]], [[32, 32, 99, 100]]] \<and>
   list_all (\<lambda>l. int (length l) \<le> 5) (splitlines [97, 98, 10, 32, 32, 99, 100]) \<and>
   list_all (\<lambda>p. int (length p) \<le> 5) (split_for_pdf [97, 98, 10, 32, 32, 99, 100] 5)"
  using split_for_pdf_whole_lines [of 5 "[97, 98, 10, 32, 32, 99, 100]"]
  by (simp add: split_for_pdf_def strip_def isspace_def splitlines_def is_linebreak_def)

section \<open>Properties of the RTL Text Shaper\<close>

lemma prepare_arabic_loop_eq:
  "prepare_arabic_loop rs gd ls out_lines =
     out_lines @ map (\<lambda>l. if strip l = [] then [] else gd (rs l)) ls"
  by (induction ls arbitrary: out_lines) auto

text \<open>
  Claim C4, as stated: the output has as many lines as the input, counted the way the
  shaper itself reads lines. The output lines are joined by line feeds and none follows
  the last one, so a blank last line disappears: the input \<open>a\<close>, line feed, line feed
  has the two lines \<open>a\<close> and the empty line; the output is \<open>a\<close>, line feed, which
  has one line, and no line at index 1.
\<close>

theorem prepare_arabic_for_pdf_trailing_blank_counterexample:
  "splitlines [97, 10, 10] = [[97], []] \<and>
   prepare_arabic_for_pdf (\<lambda>s. s) (\<lambda>s. s) [97, 10, 10] = [97, 10] \<and>
   splitlines (prepare_arabic_for_pdf (\<lambda>s. s) (\<lambda>s. s) [97, 10, 10]) = [[97]] \<and>
   length (splitlines (prepare_arabic_for_pdf (\<lambda>s. s) (\<lambda>s. s) [97, 10, 10]))
     \<noteq> length (splitlines [97, 10, 10])"
  by (simp add: prepare_arabic_for_pdf_def strip_def isspace_def splitlines_def is_linebreak_def)

text \<open>
  Claim C4, amended. For every input string, \<open>prepare_arabic_for_pdf\<close> returns the
  line-feed join of a list of output lines that has exactly one line for each line of
  the input, in order: the empty line where the input line is blank, the shaped line
  otherwise. Read back as lines, the output has exactly these lines provided the last
  of them is not empty and shaping puts no line terminator into a line.
\<close>

theorem prepare_arabic_for_pdf_lines:
  "\<exists>out_lines.
     prepare_arabic_for_pdf rs gd text = join [10] out_lines \<and>
     length out_lines = length (splitlines text) \<and>
     (\<forall>i < length out_lines.
        out_lines ! i =
          (if strip (splitlines text ! i) = [] then [] else gd (rs (splitlines text ! i)))) \<and>
     (out_lines \<noteq> [] \<and> last out_lines \<noteq> [] \<and>
      (\<forall>l \<in> set out_lines. \<forall>c \<in> set l. \<not> is_linebreak c) \<longrightarrow>
        splitlines (prepare_arabic_for_pdf rs gd text) = out_lines)"
proof -
  let ?out = "map (\<lambda>l. if strip l = [] then [] else gd (rs l)) (splitlines text)"
  have p: "prepare_arabic_for_pdf rs gd text = join [10] ?out"
    by (simp add: prepare_arabic_for_pdf_def prepare_arabic_loop_eq)
  have "?out \<noteq> [] \<and> last ?out \<noteq> [] \<and> (\<forall>l \<in> set ?out. \<forall>c \<in> set l. \<not> is_linebreak c) \<longrightarrow>
        splitlines (prepare_arabic_for_pdf rs gd text) = ?out"
    unfolding p using splitlines_join[of ?out] by blast
  with p show ?thesis by (intro exI[of _ ?out]) simp
qed

theorem prepare_arabic_for_pdf_lines_witness:
  "prepare_arabic_for_pdf (\<lambda>s. s) rev [97, 98, 10, 32, 10, 99] = join [10] [[98, 97], [], [99]] \<and>
   length [[98, 97], [], [99::nat]] = length (splitlines [97, 98, 10, 32, 10, 99]) \<and>
   (1::nat) < length [[98, 97], [], [99::nat]] \<and>
   strip (splitlines [97, 98, 10, 32, 10, 99] ! 1) = [] \<and> [[98, 97], [], [99::nat]] ! 1 = [] \<and>
   last [[98, 97], [], [99::nat]] \<noteq> [] \<and>
   list_all (\<lambda>l. list_all (\<lambda>c. \<not> is_linebreak c) l) [[98, 97], [], [99]] \<and>
   splitlines (prepare_arabic_for_pdf (\<lambda>s. s) rev [97, 98, 10, 32, 10, 99]) = [[98, 97], [], [99]]"
  using prepare_arabic_for_pdf_lines [of "\<lambda>s. s" rev "[97, 98, 10, 32, 10, 99]"]
  by (simp add: prepare_arabic_for_pdf_def strip_def isspace_def splitlines_def is_linebreak_def)

section \<open>Properties of the Chunked Translator\<close>

lemma range_step_arith:
  "0 < step \<Longrightarrow> i < n \<Longrightarrow> (n - i + step - 1) div step = Suc ((n - (i + step) + step - 1) div step)"
  for step i n :: nat
proof (cases "i + step \<le> n")
  case True
  assume "0 < step" "i < n"
  with True have e: "n - i + step - 1 = (n - (i + step) + step - 1) + step" by simp
  have "(n - (i + step) + step - 1 + step) div step = (n - (i + step) + step - 1) div step + 1"
    by (rule div_add_self2) (use \<open>0 < step\<close> in simp)
  then show ?thesis by (simp only: e Suc_eq_plus1)
next
  case False
  assume s: "0 < step" "i < n"
  with False have a: "n - (i + step) + step - 1 = step - 1" by simp
  from s False have "step \<le> n - i + step - 1" "n - i + step - 1 < 2 * step" by simp_all
  then have "(n - i + step - 1) div step = 1"
    using s(1) by (intro div_nat_eqI) simp_all
  with a s(1) show ?thesis by simp
qed

lemma range_from_eq:
  "0 < step \<Longrightarrow> range_from i n step = map (\<lambda>k. i + k * step) [0..<(n - i + step - 1) div step]"
proof (induction i n step rule: range_from.induct)
  case (1 i n step)
  show ?case
  proof (cases "n \<le> i")
    case True
    with "1.prems" have "(n - i + step - 1) div step = 0" by simp
    with True show ?thesis by (simp add: range_from.simps[of i n step])
  next
    case False
    with "1.prems" have ih: "range_from (i + step) n step =
        map (\<lambda>k. i + step + k * step) [0..<(n - (i + step) + step - 1) div step]"
      using "1.IH" by simp
    let ?K = "(n - (i + step) + step - 1) div step"
    have k: "(n - i + step - 1) div step = Suc ?K"
      using range_step_arith[of step i n] False "1.prems" by simp
    have "[0..<Suc ?K] = 0 # map Suc [0..<?K]"
      by (simp add: upt_conv_Cons map_Suc_upt del: upt_Suc)
    then have "map (\<lambda>k. i + k * step) [0..<Suc ?K] = i # map (\<lambda>k. i + step + k * step) [0..<?K]"
      by (simp add: comp_def add.assoc del: upt_Suc)
    with ih k False "1.prems" show ?thesis
      by (simp add: range_from.simps[of i n step] del: upt_Suc)
  qed
qed

lemma ceil_div: "0 < m \<Longrightarrow> nat \<lceil>real n / real m\<rceil> = (n + m - 1) div m"
proof -
  assume m: "0 < m"
  define q where "q = (n + m - 1) div m"
  define r where "r = q * m"
  have eq: "r + (n + m - 1) mod m = n + m - 1" by (simp add: r_def q_def)
  have lt: "(n + m - 1) mod m < m" using m by simp
  have n_le: "n \<le> r" using eq lt m by arith
  have r_lt: "r < n + m" using eq m by arith
  have rm: "0 < real m" using m by simp
  have rr: "real r = real q * real m" by (simp add: r_def)
  have "real n \<le> real q * real m" using n_le rr by (metis of_nat_le_iff)
  then have up: "real n / real m \<le> real q" using rm by (simp add: pos_divide_le_eq)
  have "real r < real n + real m" using r_lt by (metis of_nat_less_iff of_nat_add)
  then have "(real q - 1) * real m < real n" by (simp add: rr algebra_simps)
  then have lo: "real q - 1 < real n / real m" using rm by (simp add: pos_less_divide_eq)
  have "\<lceil>real n / real m\<rceil> = int q"
    using lo up by (intro ceiling_unique) simp_all
  then show ?thesis by (simp add: q_def)
qed

lemma hard_split_pos:
  "0 < m \<Longrightarrow> hard_split p m =
     Inr (map (\<lambda>k. take (nat m) (drop (k * nat m) p)) [0..<nat \<lceil>real (length p) / real_of_int m\<rceil>])"
proof -
  assume m: "0 < m"
  then have nm: "0 < nat m" by simp
  have r: "range_from 0 (length p) (nat m) = map (\<lambda>k. k * nat m) [0..<(length p + nat m - 1) div nat m]"
    using range_from_eq[OF nm, of 0 "length p"] by simp
  have "real (nat m) = real_of_int m" using m by simp
  then have c: "nat \<lceil>real (length p) / real_of_int m\<rceil> = (length p + nat m - 1) div nat m"
    using ceil_div[OF nm, of "length p"] by simp
  show ?thesis using m by (simp add: hard_split_def r c comp_def)
qed

lemma hard_split_bound:
  "0 < m \<Longrightarrow> hard_split p m = Inr slices \<Longrightarrow> \<forall>s \<in> set slices. int (length s) \<le> m"
  by (auto simp: hard_split_def)

lemma chunk_loop_bound:
  "0 < m \<Longrightarrow> \<forall>c \<in> set chunks. int (length c) \<le> m \<Longrightarrow> int (length buf) \<le> m \<Longrightarrow>
   chunk_loop m parts chunks buf = Inr (chunks', buf') \<Longrightarrow>
   (\<forall>c \<in> set chunks'. int (length c) \<le> m) \<and> int (length buf') \<le> m"
proof (induction parts arbitrary: chunks buf)
  case Nil
  then show ?case by simp
next
  case (Cons p parts)
  let ?chunks1 = "if buf \<noteq> [] then chunks @ [buf] else chunks"
  have c1: "\<forall>c \<in> set ?chunks1. int (length c) \<le> m" using Cons.prems(2,3) by simp
  show ?case
  proof (cases "int (length buf) + int (length p) + 1 \<le> m")
    case True
    have "length (strip (buf @ [10] @ p)) \<le> length (buf @ [10] @ p)" by (rule length_strip)
    with True have b: "int (length (strip (buf @ [10] @ p))) \<le> m" by simp
    from True Cons.prems(4)
    have "chunk_loop m parts chunks (strip (buf @ [10] @ p)) = Inr (chunks', buf')" by simp
    from Cons.IH[OF Cons.prems(1,2) b this] show ?thesis .
  next
    case False
    show ?thesis
    proof (cases "int (length p) \<le> m")
      case True
      with False Cons.prems(4) have "chunk_loop m parts ?chunks1 p = Inr (chunks', buf')"
        by (simp add: Let_def)
      from Cons.IH[OF Cons.prems(1) c1 True this] show ?thesis .
    next
      case long: False
      with False Cons.prems(4) obtain slices where
        hs: "hard_split p m = Inr slices" and
        r: "chunk_loop m parts (?chunks1 @ slices) [] = Inr (chunks', buf')"
        by (auto simp: Let_def split: sum.splits if_splits)
      have "\<forall>c \<in> set (?chunks1 @ slices). int (length c) \<le> m"
        using c1 hard_split_bound[OF Cons.prems(1) hs] by auto
      moreover have "int (length ([]::pystr)) \<le> m" using Cons.prems(1) by simp
      ultimately show ?thesis using Cons.IH[OF Cons.prems(1) _ _ r] by blast
    qed
  qed
qed

lemma make_chunks_bound:
  "0 < m \<Longrightarrow> make_chunks s m = Inr chunks \<Longrightarrow> \<forall>c \<in> set chunks. int (length c) \<le> m"
proof -
  assume m: "0 < m" and mc: "make_chunks s m = Inr chunks"
  let ?parts = "map strip (filter (\<lambda>p. strip p \<noteq> []) (split_nl s))"
  from mc obtain cs buf where
    l: "chunk_loop m ?parts [] [] = Inr (cs, buf)" and
    c: "chunks = (if buf \<noteq> [] then cs @ [buf] else cs)"
    by (auto simp: make_chunks_def Let_def split: sum.splits prod.splits)
  have "(\<forall>c \<in> set cs. int (length c) \<le> m) \<and> int (length buf) \<le> m"
    using chunk_loop_bound[OF m _ _ l] m by simp
  with c show ?thesis by auto
qed

lemma translate_loop_calls:
  "set (fst (translate_loop tr chunks calls translated)) \<subseteq> set calls \<union> set chunks"
proof (induction chunks arbitrary: calls translated)
  case Nil
  then show ?case by simp
next
  case (Cons a chunks)
  show ?case
  proof (cases "tr a")
    case (Inl e)
    then show ?thesis by auto
  next
    case (Inr t)
    then show ?thesis using Cons[of "calls @ [a]" "translated @ [t]"] by auto
  qed
qed

lemma translate_loop_calls_all:
  "\<forall>c \<in> set chunks. \<exists>t. tr c = Inr t \<Longrightarrow>
   fst (translate_loop tr chunks calls translated) = calls @ chunks"
  by (induction chunks arbitrary: calls translated) (auto split: sum.splits)

text \<open>
  Claim C7. For every input string and every positive maximum chunk size, every chunk
  that \<open>translate_chunked\<close> passes to the translation call has at most that many
  characters.
\<close>

theorem translate_chunked_chunks_bounded:
  "0 < max_chunk_chars \<Longrightarrow>
   \<forall>c \<in> set (fst (translate_chunked tr text max_chunk_chars)). int (length c) \<le> max_chunk_chars"
proof -
  assume m: "0 < max_chunk_chars"
  show ?thesis
  proof (cases "strip text = []")
    case True
    then show ?thesis by (simp add: translate_chunked_def)
  next
    case False
    show ?thesis
    proof (cases "make_chunks (strip text) max_chunk_chars")
      case (Inl e)
      with False show ?thesis by (simp add: translate_chunked_def)
    next
      case (Inr chunks)
      have "fst (translate_chunked tr text max_chunk_chars) = fst (translate_loop tr chunks [] [])"
        using False Inr by (simp add: translate_chunked_def split: prod.splits sum.splits)
      moreover have "set (fst (translate_loop tr chunks [] [])) \<subseteq> set chunks"
        using translate_loop_calls[of tr chunks "[]" "[]"] by simp
      ultimately show ?thesis using make_chunks_bound[OF m Inr] by auto
    qed
  qed
qed

theorem translate_chunked_chunks_bounded_witness:
  "0 < (5::int) \<and>
   fst (translate_chunked (\<lambda>s. Inr (rev s)) [97, 98, 10, 99, 100, 10, 32, 10, 101, 102, 103, 104, 105, 106] 5)
     = [[97, 98, 10, 99, 100], [101, 102, 103, 104, 105], [106]] \<and>
   list_all (\<lambda>c. int (length c) \<le> 5)
     (fst (translate_chunked (\<lambda>s. Inr (rev s)) [97, 98, 10, 99, 100, 10, 32, 10, 101, 102, 103, 104, 105, 106] 5))"
  using translate_chunked_chunks_bounded
    [of 5 "\<lambda>s. Inr (rev s)" "[97, 98, 10, 99, 100, 10, 32, 10, 101, 102, 103, 104, 105, 106]"]
  by (simp add: translate_chunked_def make_chunks_def split_nl_def strip_def isspace_def
      hard_split_def range_from.simps list_all_iff)

text \<open>
  Claim C6. For every input string that is empty or consists of white space only,
  \<open>translate_chunked\<close> returns the empty string and calls the translation service not
  at all: the list of calls is empty.
\<close>

theorem translate_chunked_blank_no_call:
  "\<forall>c \<in> set text. isspace c \<Longrightarrow> translate_chunked tr text max_chunk_chars = ([], Inr [])"
  by (simp add: translate_chunked_def strip_eq_Nil_iff)

theorem translate_chunked_blank_no_call_witness:
  "isspace 32 \<and> isspace 10 \<and>
   translate_chunked (\<lambda>s. Inl (CollaboratorError [])) [32, 10] 3500 = ([], Inr [])"
  using translate_chunked_blank_no_call [of "[32, 10]" "\<lambda>s. Inl (CollaboratorError [])" 3500]
  by (simp add: isspace_def)

text \<open>
  Claim C5. An input without a line feed is a single paragraph, the trimmed input.
  When it is longer than the positive maximum chunk size, the chunking step yields
  exactly \<open>\<lceil>len / max_chunk_chars\<rceil>\<close> chunks, and chunk \<open>k\<close> is the slice of
  \<open>max_chunk_chars\<close> characters that starts at position \<open>k * max_chunk_chars\<close> (the
  last one is what remains), cut wherever that position falls.
\<close>

theorem make_chunks_hard_split:
  assumes "0 < max_chunk_chars" and "10 \<notin> set text"
    and "max_chunk_chars < int (length (strip text))"
  shows "make_chunks (strip text) max_chunk_chars =
     Inr (map (\<lambda>k. take (nat max_chunk_chars) (drop (k * nat max_chunk_chars) (strip text)))
            [0..<nat \<lceil>real (length (strip text)) / real_of_int max_chunk_chars\<rceil>])"
proof -
  let ?p = "strip text"
  have ne: "?p \<noteq> []" using assms(1,3) by auto
  have "10 \<notin> set ?p" using assms(2) set_strip[of "text"] by auto
  then have "split_nl ?p = [?p]" by (rule split_nl_no_nl)
  then have parts: "map strip (filter (\<lambda>p. strip p \<noteq> []) (split_nl ?p)) = [?p]"
    using ne by (simp add: strip_strip)
  have "chunk_loop max_chunk_chars [?p] [] [] =
     Inr (map (\<lambda>k. take (nat max_chunk_chars) (drop (k * nat max_chunk_chars) ?p))
            [0..<nat \<lceil>real (length ?p) / real_of_int max_chunk_chars\<rceil>], [])"
    using assms(1,3) by (simp add: hard_split_pos)
  then show ?thesis by (simp add: make_chunks_def parts)
qed

theorem make_chunks_hard_split_witness:
  "0 < (3::int) \<and> (10::nat) \<notin> set [32, 97, 98, 99, 32, 100, 101, 102, 103] \<and>
   3 < int (length (strip [32, 97, 98, 99, 32, 100, 101, 102, 103])) \<and>
   nat \<lceil>real (length (strip [32, 97, 98, 99, 32, 100, 101, 102, 103])) / real_of_int 3\<rceil> = 3 \<and>
   make_chunks (strip [32, 97, 98, 99, 32, 100, 101, 102, 103]) 3
     = Inr [[97, 98, 99], [32, 100, 101], [102, 103]]"
  using make_chunks_hard_split [of 3 "[32, 97, 98, 99, 32, 100, 101, 102, 103]"]
  by (simp add: strip_def isspace_def upt_rec)

section \<open>Properties of the Document Assembler\<close>

lemma new_pages_kinds:
  "map kind_of (new_pages env i rect n j chunks out) =
     map kind_of out @ replicate (length chunks) (TranslationOf i)"
  by (induction chunks arbitrary: j out) (simp_all add: replicate_app_Cons_same)

lemma build_loop_layout:
  assumes ok: "map (page_arabic env) src = map Inr arabics"
  shows "\<forall>i \<in> set idx. i < length src \<Longrightarrow>
     \<exists>out'. build_loop env src idx out = Inr out' \<and>
       map kind_of out' = map kind_of out @
         concat (map (\<lambda>i. CopyOf i (src ! i) #
                      replicate (length (split_for_pdf (arabics ! i) 2600)) (TranslationOf i)) idx)"
proof (induction idx arbitrary: out)
  case Nil
  then show ?case by simp
next
  case (Cons i idx)
  then have i: "i < length src" by simp
  have "length (map (page_arabic env) src) = length (map Inr arabics :: (py_exception + pystr) list)"
    by (simp only: ok)
  then have len: "length arabics = length src" by simp
  have "map (page_arabic env) src ! i = (map Inr arabics :: (py_exception + pystr) list) ! i"
    by (simp only: ok)
  with i len have pa: "page_arabic env (src ! i) = Inr (arabics ! i)" by simp
  let ?chunks = "split_for_pdf (arabics ! i) 2600"
  let ?out2 = "new_pages env i (page_rect env (src ! i)) (length ?chunks) 1 ?chunks
                 (out @ [Copied i (src ! i)])"
  have step: "build_loop env src (i # idx) out = build_loop env src idx ?out2"
    using pa by (simp add: Let_def)
  from Cons.prems have "\<forall>i \<in> set idx. i < length src" by simp
  from Cons.IH[OF this, of ?out2] obtain out' where
    r: "build_loop env src idx ?out2 = Inr out'" and
    k: "map kind_of out' = map kind_of ?out2 @
         concat (map (\<lambda>i. CopyOf i (src ! i) #
                      replicate (length (split_for_pdf (arabics ! i) 2600)) (TranslationOf i)) idx)"
    by blast
  from r k step show ?case by (simp add: new_pages_kinds)
qed

text \<open>
  Claim C1. When the input file opens as the pages \<open>src\<close> and text extraction and
  translation succeed on every page, giving the translated texts \<open>arabics\<close>,
  \<open>build_translated_pdf\<close> returns a document whose pages are, for each source page
  \<open>i\<close> in order, the copy of page \<open>i\<close> followed immediately by \<open>K\<^sub>i\<close> generated pages,
  where \<open>K\<^sub>i\<close> is the number of pages \<open>split_for_pdf\<close> makes of the translated text of
  page \<open>i\<close> with capacity 2600; every \<open>K\<^sub>i\<close> is at least 1.
\<close>

theorem build_translated_pdf_layout:
  assumes "fitz_open env input_pdf = Inr src"
    and "map (page_arabic env) src = map Inr arabics"
  shows "\<exists>out. build_translated_pdf env input_pdf = Inr out \<and>
     map kind_of out = spec_layout src (map (\<lambda>a. length (split_for_pdf a 2600)) arabics) \<and>
     (\<forall>a \<in> set arabics. 1 \<le> length (split_for_pdf a 2600))"
proof -
  have "length (map (page_arabic env) src) = length (map Inr arabics :: (py_exception + pystr) list)"
    by (simp only: assms(2))
  then have len: "length arabics = length src" by simp
  from build_loop_layout[OF assms(2), of "[0..<length src]" "[]"] obtain out where
    r: "build_loop env src [0..<length src] [] = Inr out" and
    k: "map kind_of out =
         concat (map (\<lambda>i. CopyOf i (src ! i) #
                      replicate (length (split_for_pdf (arabics ! i) 2600)) (TranslationOf i))
                   [0..<length src])"
    by auto
  have "map (\<lambda>i. CopyOf i (src ! i) #
             replicate (length (split_for_pdf (arabics ! i) 2600)) (TranslationOf i))
          [0..<length src] =
        map (\<lambda>i. CopyOf i (src ! i) #
             replicate (map (\<lambda>a. length (split_for_pdf a 2600)) arabics ! i) (TranslationOf i))
          [0..<length src]"
    using len by (intro map_cong) simp_all
  with k have l: "map kind_of out = spec_layout src (map (\<lambda>a. length (split_for_pdf a 2600)) arabics)"
    by (simp only: spec_layout_def)
  have "\<forall>a \<in> set arabics. 1 \<le> length (split_for_pdf a 2600)"
  proof
    fix a
    have "split_for_pdf a 2600 \<noteq> []" by (rule split_for_pdf_not_Nil) simp
    then show "1 \<le> length (split_for_pdf a 2600)" by (cases "split_for_pdf a 2600") auto
  qed
  with r l show ?thesis using assms(1) by (simp add: build_translated_pdf_def)
qed

theorem build_translated_pdf_layout_witness:
  "fitz_open demo_env () = Inr [0, 1] \<and>
   map (page_arabic demo_env) [0, 1] = map Inr [[105, 72], rev no_text_on_page] \<and>
   (\<exists>out. build_translated_pdf demo_env () = Inr out \<and>
      map kind_of out = [CopyOf 0 0, TranslationOf 0, CopyOf 1 1, TranslationOf 1])"
proof -
  have h1: "fitz_open demo_env () = Inr [0, 1]" by (simp add: demo_env_def)
  have h2: "map (page_arabic demo_env) [0, 1] = map Inr [[105, 72], rev no_text_on_page]"
    by (simp add: demo_env_def page_arabic_def extract_text_from_pdf_page_def
        translate_chunked_def make_chunks_def split_nl_def strip_def isspace_def
        no_text_on_page_def ascii_def)
  have k: "length (split_for_pdf [105, 72] 2600) = 1"
    "length (split_for_pdf (rev no_text_on_page) 2600) = 1"
    by (simp_all add: split_for_pdf_def strip_def isspace_def no_text_on_page_def ascii_def)
  from build_translated_pdf_layout [OF h1 h2] obtain out where
    "build_translated_pdf demo_env () = Inr out"
    "map kind_of out =
       spec_layout [0, 1] (map (\<lambda>a. length (split_for_pdf a 2600)) [[105, 72], rev no_text_on_page])"
    by blast
  then have "build_translated_pdf demo_env () = Inr out \<and>
      map kind_of out = [CopyOf 0 0, TranslationOf 0, CopyOf 1 1, TranslationOf 1]"
    by (simp add: k spec_layout_def upt_rec)
  then have e: "\<exists>out. build_translated_pdf demo_env () = Inr out \<and>
      map kind_of out = [CopyOf 0 0, TranslationOf 0, CopyOf 1 1, TranslationOf 1]"
    by (rule exI)
  show ?thesis by (rule conjI[OF h1 conjI[OF h2 e]])
qed

section \<open>Properties of the request handlers\<close>

text \<open>
  Claim C10. In the image handler, once OCR and translation have returned the translated
  string (placeholders substituted), the reply after the progress message is the
  string itself as a text message when it has at most 3500 characters, and otherwise a
  document named \<open>translation_ar.txt\<close> whose content is the string.
\<close>

theorem handle_image_reply:
  assumes "ocr_and_translate env img = Inr (extracted, arabic)"
  shows "handle_image env (Inr img) =
     ([ReplyText (ascii ''Processing image (OCR + translation)...''),
       if int (length arabic) \<le> 3500 then ReplyText arabic
       else ReplyDocument (ascii ''translation_ar.txt'') (TextFile arabic)], None)"
  using assms by (simp add: handle_image_def)

theorem handle_image_reply_witness:
  "ocr_and_translate demo_env () = Inr ([84, 69, 83, 84], [84, 83, 69, 84]) \<and>
   int (length [84, 83, 69, 84 :: nat]) \<le> 3500 \<and>
   handle_image demo_env (Inr ()) =
     (([ReplyText (ascii ''Processing image (OCR + translation)...''),
        ReplyText [84, 83, 69, 84]], None) :: nat effect)"
proof -
  have h: "ocr_and_translate demo_env () = Inr ([84, 69, 83, 84], [84, 83, 69, 84])"
    by (simp add: demo_env_def ocr_and_translate_def translate_chunked_def make_chunks_def
        split_nl_def strip_def isspace_def)
  from handle_image_reply [OF h] h show ?thesis by simp
qed

text \<open>
  The PDF handler and the image handler catch an exception of the pipeline and report
  it as a text message; the text handler has no handler for it.
\<close>

lemma handle_pdf_failure_reported:
  "build_translated_pdf env input_pdf = Inl e \<Longrightarrow>
   handle_pdf env (Inr input_pdf) =
     ([ReplyText (ascii ''Processing your PDF (OCR + translation)...''),
       ReplyText (ascii ''Failed to process PDF: '' @ exc_str e)], None)"
  by (simp add: handle_pdf_def)

lemma handle_image_failure_reported:
  "ocr_and_translate env img = Inl e \<Longrightarrow>
   handle_image env (Inr img) =
     ([ReplyText (ascii ''Processing image (OCR + translation)...''),
       ReplyText (ascii ''Failed to process image: '' @ exc_str e)], None)"
  by (simp add: handle_image_def)

lemma handle_text_failure_escapes:
  "strip t \<noteq> [] \<Longrightarrow> snd (translate_chunked (translate env) (strip t) 3500) = Inl e \<Longrightarrow>
   handle_text env (Some t) = ([], Some e)"
  by (simp add: handle_text_def)

text \<open>
  Claim C9. A failure inside the pipeline is caught by the handler of the request and
  reported to the user as a text message. For a text message this does not hold: when
  the translation call raises, \<open>handle_text\<close> sends nothing and the exception leaves
  the handler, whereas \<open>handle_image\<close> reports the same failure.
\<close>

theorem handle_text_failure_not_reported:
  "handle_text failing_env (Some [104, 105]) =
     (([], Some (CollaboratorError (ascii ''timed out''))) :: nat effect) \<and>
   handle_image failing_env (Inr ()) =
     (([ReplyText (ascii ''Processing image (OCR + translation)...''),
        ReplyText (ascii ''Failed to process image: timed out'')], None) :: nat effect)"
  by (simp add: failing_env_def demo_env_def handle_text_def handle_image_def
      ocr_and_translate_def translate_chunked_def make_chunks_def split_nl_def strip_def
      isspace_def ascii_def)

end
